theory Spec2Isabelle
  imports Main "HOL-Library.Sublist"
begin

section \<open>Python string primitives used by scrape\_qiita.py\<close>

text \<open>
  A Python \<open>str\<close> is modelled as a \<open>string\<close>; a character is a code point below 256
  and \<open>length\<close> is Python's \<open>len\<close>. \<open>isspace\<close> is \<open>str.isspace\<close> on these code
  points: it is the set that \<open>str.strip()\<close> without argument removes.
\<close>

abbreviation NL :: char where
  "NL \<equiv> CHR 0x0A"

abbreviation CR :: char where
  "CR \<equiv> CHR 0x0D"

definition isspace :: "char \<Rightarrow> bool" where
  "isspace c = (c \<in> {CHR 0x09, CHR 0x0A, CHR 0x0B, CHR 0x0C, CHR 0x0D,
                      CHR 0x1C, CHR 0x1D, CHR 0x1E, CHR 0x1F, CHR 0x20,
                      CHR 0x85, CHR 0xA0})"

definition lstrip :: "string \<Rightarrow> string" where
  "lstrip s = dropWhile isspace s"

definition rstrip :: "string \<Rightarrow> string" where
  "rstrip s = rev (dropWhile isspace (rev s))"

definition strip :: "string \<Rightarrow> string" where
  "strip s = rstrip (lstrip s)"


definition startswith :: "string \<Rightarrow> string \<Rightarrow> bool" where
  "startswith s p = (take (length p) s = p)"

text \<open>
  \<open>s.split(sep)\<close> for a non-empty separator: the occurrences of \<open>sep\<close> are found from
  the left and do not overlap; the result is never the empty list. (Python raises
  ValueError for an empty separator; the script only splits on the literals
  \<open>"\n\n"\<close>, \<open>"\n"\<close> and \<open>"/"\<close>, and the model returns \<open>[s]\<close> there.)
\<close>

function split :: "string \<Rightarrow> string \<Rightarrow> string list" where
  "split sep s =
     (if s = [] then [[]]
      else if sep \<noteq> [] \<and> startswith s sep then [] # split sep (drop (length sep) s)
      else (case split sep (tl s) of
              p # ps \<Rightarrow> (hd s # p) # ps
            | [] \<Rightarrow> [[hd s]]))"
  by pat_completeness auto
termination
  by (relation "measure (\<lambda>(sep, s). length s)") auto

declare split.simps [simp del]

text \<open>\<open>sep.join(xs)\<close>.\<close>

fun join :: "string \<Rightarrow> string list \<Rightarrow> string" where
  "join sep [] = []"
| "join sep [x] = x"
| "join sep (x # y # ys) = x @ sep @ join sep (y # ys)"


section \<open>qiita\_id\_from\_url and the output file name\<close>




section \<open>Post-processing in html\_to\_markdown\_text\<close>

text \<open>
  \<open>re.sub(r"\n{3,}", "\n\n", text_md)\<close>: scanning from the left, a position where at
  least three newlines start is a match; the greedy quantifier takes the whole run,
  which is replaced by two newlines, and the scan goes on behind the run. At any other
  position the character is copied.
\<close>

function collapse_newlines :: "string \<Rightarrow> string" where
  "collapse_newlines s =
     (if s = [] then []
      else if 3 \<le> length (takeWhile (\<lambda>c. c = NL) s)
           then [NL, NL] @ collapse_newlines (dropWhile (\<lambda>c. c = NL) s)
      else hd s # collapse_newlines (tl s))"
  by pat_completeness auto
termination
proof (relation "measure length")
  fix s :: string
  assume "s \<noteq> []" "3 \<le> length (takeWhile (\<lambda>c. c = NL) s)"
  then have "length (dropWhile (\<lambda>c. c = NL) s) < length s"
    by (cases s) (auto simp: less_Suc_eq_le length_dropWhile_le split: if_splits)
  then show "(dropWhile (\<lambda>c. c = NL) s, s) \<in> measure length" by simp
qed auto

declare collapse_newlines.simps [simp del]

text \<open>
  The tail of \<open>html_to_markdown_text\<close>, from the Markdown text that the external
  converter \<open>markdownify\<close> returned: collapse, then \<open>strip()\<close>.
\<close>

definition postprocess_markdown :: "string \<Rightarrow> string" where
  "postprocess_markdown text_md = strip (collapse_newlines text_md)"

section \<open>translate\_text\<close>

text \<open>
  The translation backend (\<open>translator.translate\<close> of the external package) is a
  parameter: called on a chunk in a backend state, it returns the translated text
  (\<open>Inr\<close>) or raises an exception derived from \<open>Exception\<close> (\<open>Inl\<close>), and leaves a
  new backend state. Every call goes through this function, so the calls made are
  visible in the state.
\<close>

type_synonym ('s, 'e) backend = "string \<Rightarrow> 's \<Rightarrow> ('e + string) \<times> 's"

definition identity_backend :: "('s, 'e) backend" where
  "identity_backend chunk s = (Inr chunk, s)"

text \<open>A backend that records, in order, the chunks it is called on.\<close>

definition logging :: "('s, 'e) backend \<Rightarrow> (string list \<times> 's, 'e) backend" where
  "logging tr chunk st =
     (case st of (calls, s) \<Rightarrow>
        (case tr chunk s of (r, s') \<Rightarrow> (r, (calls @ [chunk], s'))))"

definition safety_margin :: nat where
  "safety_margin = 3500"

text \<open>
  The loop over \<open>block.split("\n")\<close>; the state is \<open>(chunks, current, current_len)\<close>.
\<close>

fun pack_loop ::
  "string list \<Rightarrow> string list \<times> string list \<times> nat \<Rightarrow> string list \<times> string list \<times> nat"
where
  "pack_loop [] st = st"
| "pack_loop (line # lines) (chunks, current, current_len) =
     (if current_len + length line + 1 > safety_margin
      then pack_loop lines (chunks @ [join [NL] current], [line], length line)
      else pack_loop lines (chunks, current @ [line], current_len + length line + 1))"

text \<open>After the loop: \<open>if current: chunks.append("\n".join(current))\<close>.\<close>

fun flush_current :: "string list \<times> string list \<times> nat \<Rightarrow> string list" where
  "flush_current (chunks, current, current_len) =
     (if current \<noteq> [] then chunks @ [join [NL] current] else chunks)"

definition chunks_of_block :: "string \<Rightarrow> string list" where
  "chunks_of_block block = flush_current (pack_loop (split [NL] block) ([], [], 0))"

text \<open>The loop over the chunks, with its \<open>try\<close>/\<open>except Exception\<close>.\<close>

fun translate_chunks :: "('s, 'e) backend \<Rightarrow> string list \<Rightarrow> 's \<Rightarrow> string list \<times> 's" where
  "translate_chunks tr [] s = ([], s)"
| "translate_chunks tr (chunk # chunks) s =
     (case tr chunk s of
        (Inr translated, s1) \<Rightarrow>
          (case translate_chunks tr chunks s1 of (rest, s2) \<Rightarrow> (translated # rest, s2))
      | (Inl e, s1) \<Rightarrow>
          (case translate_chunks tr chunks s1 of (rest, s2) \<Rightarrow> (chunk # rest, s2)))"

text \<open>The loop over the paragraphs; it returns \<open>translated_blocks\<close>.\<close>

fun translate_blocks :: "('s, 'e) backend \<Rightarrow> string list \<Rightarrow> 's \<Rightarrow> string list \<times> 's" where
  "translate_blocks tr [] s = ([], s)"
| "translate_blocks tr (block0 # paragraphs) s =
     (let block = strip block0 in
      if block = []
      then (case translate_blocks tr paragraphs s of (rest, s1) \<Rightarrow> ([] # rest, s1))
      else (case translate_chunks tr (chunks_of_block block) s of
              (translated_chunk_list, s1) \<Rightarrow>
                (case translate_blocks tr paragraphs s1 of
                   (rest, s2) \<Rightarrow> (join [NL] translated_chunk_list # rest, s2))))"

definition translate_text :: "('s, 'e) backend \<Rightarrow> string \<Rightarrow> 's \<Rightarrow> string \<times> 's" where
  "translate_text tr text s =
     (if strip text = [] then (text, s)
      else (case translate_blocks tr (split [NL, NL] text) s of
              (translated_blocks, s1) \<Rightarrow> (join [NL, NL] translated_blocks, s1)))"

text \<open>All chunks that \<open>translate_text\<close> builds for a text, paragraph by paragraph.\<close>

definition chunks_of_text :: "string \<Rightarrow> string list" where
  "chunks_of_text text =
     (if strip text = [] then []
      else concat (map (\<lambda>block0. if strip block0 = [] then [] else chunks_of_block (strip block0))
                       (split [NL, NL] text)))"

text \<open>
  What the loop body makes of one paragraph when every chunk comes back as it is
  (the backend returns it, or raises and the chunk is kept).
\<close>

definition rejoined_block :: "string \<Rightarrow> string" where
  "rejoined_block block0 =
     (if strip block0 = [] then [] else join [NL] (chunks_of_block (strip block0)))"

section \<open>read\_links\_from\_docs\_readme\<close>

record LinkItem =
  title :: string
  url :: string
  parent :: "string option"

text \<open>
  The file is opened in text mode with the default \<open>newline=None\<close>: the line endings
  \<open>"\r\n"\<close> and \<open>"\r"\<close> are read as \<open>"\n"\<close>. Iterating over the file yields the lines,
  each with its terminating newline (the last line may have none).
\<close>

fun universal_newlines :: "string \<Rightarrow> string" where
  "universal_newlines [] = []"
| "universal_newlines [c] = (if c = CR then [NL] else [c])"
| "universal_newlines (c # d # ds) =
     (if c = CR \<and> d = NL then NL # universal_newlines ds
      else if c = CR then NL # universal_newlines (d # ds)
      else c # universal_newlines (d # ds))"

fun readlines :: "string \<Rightarrow> string list" where
  "readlines [] = []"
| "readlines (c # cs) =
     (if c = NL then [NL] # readlines cs
      else (case readlines cs of
              [] \<Rightarrow> [[c]]
            | l # ls \<Rightarrow> (c # l) # ls))"

text \<open>
  \<open>re.search(r"\[(.*?)\]\((https?://[^\)]+)\)", line)\<close>, component by component.
  \<open>match_url\<close> matches \<open>https?://[^\)]+\)\<close> at the start of its argument: the greedy
  class takes every character up to the first closing parenthesis, and giving one back
  cannot help, since the character given back is not a closing parenthesis. It
  returns group 2.
\<close>

definition match_scheme :: "string \<Rightarrow> string \<Rightarrow> string option" where
  "match_scheme scheme s =
     (if startswith s scheme
      then (let rest = drop (length scheme) s;
                body = takeWhile (\<lambda>c. c \<noteq> CHR '')'') rest
            in if body \<noteq> [] \<and> drop (length body) rest \<noteq> [] then Some (scheme @ body) else None)
      else None)"

definition match_url :: "string \<Rightarrow> string option" where
  "match_url s =
     (case match_scheme ''https://'' s of
        Some u \<Rightarrow> Some u
      | None \<Rightarrow> match_scheme ''http://'' s)"

text \<open>
  \<open>match_title\<close> matches \<open>(.*?)\]\((https?://[^\)]+)\)\<close>: the lazy group takes as few
  characters as possible, trying the rest of the pattern first and one more character
  (any but a newline) when that fails.
\<close>

fun match_title :: "string \<Rightarrow> string \<Rightarrow> (string \<times> string) option" where
  "match_title acc s =
     (case (if startswith s '']('' then match_url (drop 2 s) else None) of
        Some u \<Rightarrow> Some (acc, u)
      | None \<Rightarrow>
          (case s of
             [] \<Rightarrow> None
           | c # cs \<Rightarrow> if c = NL then None else match_title (acc @ [c]) cs))"

declare match_title.simps [simp del]

definition match_at :: "string \<Rightarrow> (string \<times> string) option" where
  "match_at s =
     (case s of
        [] \<Rightarrow> None
      | c # cs \<Rightarrow> if c = CHR ''['' then match_title [] cs else None)"

text \<open>\<open>re.search\<close>: the match at the leftmost position where there is one.\<close>

fun re_search :: "string \<Rightarrow> (string \<times> string) option" where
  "re_search s =
     (case match_at s of
        Some m \<Rightarrow> Some m
      | None \<Rightarrow> (case s of [] \<Rightarrow> None | c # cs \<Rightarrow> re_search cs))"

declare re_search.simps [simp del]

text \<open>The loop over the lines of the file; the state is \<open>links\<close>.\<close>

fun read_links_loop :: "string list \<Rightarrow> LinkItem list \<Rightarrow> LinkItem list" where
  "read_links_loop [] links = links"
| "read_links_loop (line0 # rest) links =
     (let line = strip line0 in
      if \<not> startswith line ''-'' then read_links_loop rest links
      else (case re_search line of
              None \<Rightarrow> read_links_loop rest links
            | Some (t, u) \<Rightarrow>
                (let indent = length line - length (lstrip line);
                     p = (if indent > 0 \<and> links \<noteq> [] then Some (title (hd links)) else None)
                 in read_links_loop rest (links @ [\<lparr>title = t, url = u, parent = p\<rparr>]))))"

text \<open>The argument is the decoded content of \<open>docs/README.md\<close>.\<close>

definition read_links_from_docs_readme :: "string \<Rightarrow> LinkItem list" where
  "read_links_from_docs_readme doc = read_links_loop (readlines (universal_newlines doc)) []"

text \<open>
  What the specification calls a valid link line of the document: its first character
  that is not white space is the list marker, and it contains \<open>[title](url)\<close> where
  the URL, which ends at the closing parenthesis, is \<open>http://\<close> or \<open>https://\<close>
  followed by something.
\<close>

definition first_nonspace_is_marker :: "string \<Rightarrow> bool" where
  "first_nonspace_is_marker line =
     (case dropWhile isspace line of [] \<Rightarrow> False | c # _ \<Rightarrow> c = CHR ''-'')"

definition contains_link :: "string \<Rightarrow> bool" where
  "contains_link line =
     (\<exists>pre t scheme body post.
        line = pre @ ''['' @ t @ '']('' @ scheme @ body @ '')'' @ post
        \<and> (scheme = ''http://'' \<or> scheme = ''https://'')
        \<and> body \<noteq> [] \<and> CHR '')'' \<notin> set body)"

definition valid_link_line :: "string \<Rightarrow> bool" where
  "valid_link_line line = (first_nonspace_is_marker line \<and> contains_link line)"

section \<open>get\_title\_from\_html\<close>

text \<open>
  The HTML parser is external; \<open>get_title_from_html\<close> is modelled from the parsed
  document on. A node is a string or a tag with a name and its children.
  \<open>find_tag name\<close> is \<open>soup.find(name)\<close>: the first tag of that name in document order.
  \<open>get_text_strip\<close> is \<open>tag.get_text(strip=True)\<close>: the strings below the tag, each
  stripped, the empty ones dropped, concatenated.
\<close>

datatype node = Text string | Tag string "node list"

fun find_tag :: "string \<Rightarrow> node list \<Rightarrow> node option" where
  "find_tag name [] = None"
| "find_tag name (Text s # rest) = find_tag name rest"
| "find_tag name (Tag n children # rest) =
     (if n = name then Some (Tag n children)
      else (case find_tag name children of
              Some t \<Rightarrow> Some t
            | None \<Rightarrow> find_tag name rest))"

text \<open>\<open>soup.find_all(name)\<close>: every tag of that name, in document order.\<close>

fun find_all :: "string \<Rightarrow> node list \<Rightarrow> node list" where
  "find_all name [] = []"
| "find_all name (Text s # rest) = find_all name rest"
| "find_all name (Tag n children # rest) =
     (if n = name then [Tag n children] else []) @ find_all name children @ find_all name rest"

fun all_strings :: "node list \<Rightarrow> string list" where
  "all_strings [] = []"
| "all_strings (Text s # rest) = s # all_strings rest"
| "all_strings (Tag n children # rest) = all_strings children @ all_strings rest"

definition get_text_strip :: "node \<Rightarrow> string" where
  "get_text_strip nd = concat (filter (\<lambda>s. s \<noteq> []) (map strip (all_strings [nd])))"

definition get_title_from_html :: "node list \<Rightarrow> string" where
  "get_title_from_html soup =
     (let h1 = find_tag ''h1'' soup in
      if h1 \<noteq> None \<and> get_text_strip (the h1) \<noteq> [] then get_text_strip (the h1)
      else (let title_tag = find_tag ''title'' soup in
            if title_tag \<noteq> None \<and> get_text_strip (the title_tag) \<noteq> []
            then get_text_strip (the title_tag)
            else []))"

text \<open>
  The title as the specification words it: the first non-empty text among the \<open>h1\<close>
  headings; when no \<open>h1\<close> has one, the text of the page's \<open>title\<close>; else empty.
\<close>

definition spec_title :: "node list \<Rightarrow> string" where
  "spec_title soup =
     (case filter (\<lambda>t. t \<noteq> []) (map get_text_strip (find_all ''h1'' soup)) of
        t # _ \<Rightarrow> t
      | [] \<Rightarrow> (case find_tag ''title'' soup of
                 Some title_tag \<Rightarrow> get_text_strip title_tag
               | None \<Rightarrow> []))"

section \<open>Facts about split, join and strip\<close>

lemma split_Nil [simp]: "split sep [] = [[]]"
  by (simp add: split.simps)

lemma split_neq_Nil [simp]: "split sep s \<noteq> []"
  by (induction sep s rule: split.induct) (subst split.simps, auto split: list.splits)

lemma split_char_Cons:
  "split [c] (x # s) =
     (if x = c then [] # split [c] s else (x # hd (split [c] s)) # tl (split [c] s))"
  by (subst split.simps) (auto simp: startswith_def split: list.splits)


lemma split_char_no_sep: "c \<notin> set s \<Longrightarrow> split [c] s = [s]"
  by (induction s) (auto simp: split_char_Cons)



section \<open>The output file name\<close>






section \<open>Collapsing blank lines\<close>

lemma collapse_Nil [simp]: "collapse_newlines [] = []"
  by (simp add: collapse_newlines.simps)

lemma collapse_Cons_other [simp]: "c \<noteq> NL \<Longrightarrow> collapse_newlines (c # s) = c # collapse_newlines s"
  by (subst collapse_newlines.simps) simp

lemma collapse_lead:
  "length (takeWhile (\<lambda>c. c = NL) (collapse_newlines s)) = min 2 (length (takeWhile (\<lambda>c. c = NL) s))"
proof (induction s rule: collapse_newlines.induct)
  case (1 s)
  show ?case
  proof (cases "s = []")
    case True
    then show ?thesis by simp
  next
    case ne: False
    show ?thesis
    proof (cases "3 \<le> length (takeWhile (\<lambda>c. c = NL) s)")
      case True
      have "takeWhile (\<lambda>c. c = NL) (dropWhile (\<lambda>c. c = NL) s) = []"
        by (metis (mono_tags, lifting) dropWhile_eq_Nil_conv hd_dropWhile takeWhile.simps(1) takeWhile_eq_Nil_iff)
      then have "takeWhile (\<lambda>c. c = NL) (collapse_newlines (dropWhile (\<lambda>c. c = NL) s)) = []"
        using "1.IH"(1) [OF ne True] by simp
      then show ?thesis using True ne
        by (subst collapse_newlines.simps) simp
    next
      case False
      obtain c cs where s: "s = c # cs" using ne by (cases s) auto
      have ih: "length (takeWhile (\<lambda>c. c = NL) (collapse_newlines cs)) = min 2 (length (takeWhile (\<lambda>c. c = NL) cs))"
        using "1.IH"(2) [OF ne False] s by simp
      have eq: "collapse_newlines (c # cs) = c # collapse_newlines cs"
        using False s by (subst collapse_newlines.simps) simp
      show ?thesis using False ih unfolding s eq by (auto split: if_splits)
    qed
  qed
qed

lemma collapse_no_run3: "\<not> sublist [NL, NL, NL] (collapse_newlines s)"
proof (induction s rule: collapse_newlines.induct)
  case (1 s)
  show ?case
  proof (cases "s = []")
    case True
    then show ?thesis by simp
  next
    case ne: False
    show ?thesis
    proof (cases "3 \<le> length (takeWhile (\<lambda>c. c = NL) s)")
      case True
      let ?r = "collapse_newlines (dropWhile (\<lambda>c. c = NL) s)"
      have "takeWhile (\<lambda>c. c = NL) (dropWhile (\<lambda>c. c = NL) s) = []"
        by (metis (mono_tags, lifting) dropWhile_eq_Nil_conv hd_dropWhile takeWhile.simps(1) takeWhile_eq_Nil_iff)
      then have lead: "takeWhile (\<lambda>c. c = NL) ?r = []"
        using collapse_lead [of "dropWhile (\<lambda>c. c = NL) s"] by simp
      have ih: "\<not> sublist [NL, NL, NL] ?r"
        using "1.IH"(1) [OF ne True] .
      have eq: "collapse_newlines s = NL # NL # ?r"
        using True ne by (subst collapse_newlines.simps) simp
      show ?thesis using ih lead unfolding eq
        by (cases ?r) (auto simp: sublist_Cons_right split: if_splits)
    next
      case False
      obtain c cs where s: "s = c # cs" using ne by (cases s) auto
      have ih: "\<not> sublist [NL, NL, NL] (collapse_newlines cs)"
        using "1.IH"(2) [OF ne False] s by simp
      have eq: "collapse_newlines s = c # collapse_newlines cs"
        using False s by (subst collapse_newlines.simps) simp
      have "\<not> prefix [NL, NL, NL] (c # collapse_newlines cs)"
      proof
        assume p: "prefix [NL, NL, NL] (c # collapse_newlines cs)"
        then obtain r where r: "c = NL" "collapse_newlines cs = NL # NL # r"
          by (auto simp: prefix_def)
        then have "2 \<le> length (takeWhile (\<lambda>c. c = NL) (collapse_newlines cs))" by simp
        then have "2 \<le> length (takeWhile (\<lambda>c. c = NL) cs)"
          by (simp add: collapse_lead)
        with r(1) s False show False by simp
      qed
      then show ?thesis using ih unfolding eq by (simp add: sublist_Cons_right)
    qed
  qed
qed

lemma collapse_append:
  "xs = [] \<or> last xs \<noteq> NL \<Longrightarrow> collapse_newlines (xs @ ys) = collapse_newlines xs @ collapse_newlines ys"
proof (induction xs rule: collapse_newlines.induct)
  case (1 s)
  show ?case
  proof (cases "s = []")
    case True
    then show ?thesis by simp
  next
    case ne: False
    then have l: "last s \<noteq> NL" using "1.prems" by simp
    then have ex: "\<exists>x\<in>set s. \<not> x = NL" using ne last_in_set by blast
    have tw: "takeWhile (\<lambda>c. c = NL) (s @ ys) = takeWhile (\<lambda>c. c = NL) s"
      using ex by (auto simp: takeWhile_append1)
    have dw: "dropWhile (\<lambda>c. c = NL) (s @ ys) = dropWhile (\<lambda>c. c = NL) s @ ys"
      using ex by (auto simp: dropWhile_append1)
    show ?thesis
    proof (cases "3 \<le> length (takeWhile (\<lambda>c. c = NL) s)")
      case True
      have dne: "dropWhile (\<lambda>c. c = NL) s \<noteq> []" using ex by (simp add: dropWhile_eq_Nil_conv)
      then have "last (dropWhile (\<lambda>c. c = NL) s) \<noteq> NL"
        using l by (metis last_appendR takeWhile_dropWhile_id)
      then have ih: "collapse_newlines (dropWhile (\<lambda>c. c = NL) s @ ys)
               = collapse_newlines (dropWhile (\<lambda>c. c = NL) s) @ collapse_newlines ys"
        using "1.IH"(1) [OF ne True] by simp
      have "collapse_newlines (s @ ys) = [NL, NL] @ collapse_newlines (dropWhile (\<lambda>c. c = NL) s @ ys)"
        using True ne tw dw by (subst collapse_newlines.simps) simp
      moreover have "collapse_newlines s = [NL, NL] @ collapse_newlines (dropWhile (\<lambda>c. c = NL) s)"
        using True ne by (subst collapse_newlines.simps) simp
      ultimately show ?thesis using ih by simp
    next
      case False
      obtain c cs where s: "s = c # cs" using ne by (cases s) auto
      have e1: "collapse_newlines (s @ ys) = c # collapse_newlines (cs @ ys)"
        using False tw s by (subst collapse_newlines.simps) simp
      have e2: "collapse_newlines s = c # collapse_newlines cs"
        using False s by (subst collapse_newlines.simps) simp
      have "cs = [] \<or> last cs \<noteq> NL" using l s by auto
      then have "collapse_newlines (cs @ ys) = collapse_newlines cs @ collapse_newlines ys"
        using "1.IH"(2) [OF ne False] s by simp
      then show ?thesis using e1 e2 by simp
    qed
  qed
qed

lemma collapse_run:
  assumes "ys = [] \<or> hd ys \<noteq> NL"
  shows "collapse_newlines (replicate n NL @ ys) = replicate (min n 2) NL @ collapse_newlines ys"
proof -
  have tw: "takeWhile (\<lambda>c. c = NL) (replicate k NL @ ys) = replicate k NL" for k
    using assms by (induction k) (auto simp: takeWhile_eq_Nil_iff neq_Nil_conv)
  have dw: "dropWhile (\<lambda>c. c = NL) (replicate k NL @ ys) = ys" for k
    using assms by (induction k) (auto simp: dropWhile_eq_self_iff neq_Nil_conv)
  have step: "collapse_newlines (NL # r) = NL # collapse_newlines r"
    if "length (takeWhile (\<lambda>c. c = NL) r) < 2" for r
    using that by (subst collapse_newlines.simps) simp
  consider "n = 0" | "n = 1" | "n = 2" | "3 \<le> n" by linarith
  then show ?thesis
  proof cases
    case 1
    then show ?thesis by simp
  next
    case 2
    have "collapse_newlines (NL # ys) = NL # collapse_newlines ys"
      using tw [of 0] by (intro step) simp
    then show ?thesis using 2 by simp
  next
    case 3
    have a: "collapse_newlines (NL # ys) = NL # collapse_newlines ys"
      using tw [of 0] by (intro step) simp
    have "collapse_newlines (NL # NL # ys) = NL # collapse_newlines (NL # ys)"
      using tw [of 1] by (intro step) simp
    then show ?thesis using 3 a by (simp add: numeral_2_eq_2)
  next
    case 4
    then have "replicate n NL @ ys \<noteq> []" by auto
    then show ?thesis using 4 tw [of n] dw [of n]
      by (subst collapse_newlines.simps) (simp add: numeral_2_eq_2)
  qed
qed

text \<open>What \<open>strip\<close> leaves: a piece of its argument without white space at either end.\<close>

lemma lstrip_hd: "lstrip s \<noteq> [] \<Longrightarrow> \<not> isspace (hd (lstrip s))"
  unfolding lstrip_def by (rule hd_dropWhile)

lemma rstrip_last: "rstrip s \<noteq> [] \<Longrightarrow> \<not> isspace (last (rstrip s))"
  unfolding rstrip_def using hd_dropWhile [of isspace "rev s"] by (simp add: last_rev)

lemma rstrip_decomp: "s = rstrip s @ rev (takeWhile isspace (rev s))"
proof -
  have "rev (rev s) = rev (takeWhile isspace (rev s) @ dropWhile isspace (rev s))"
    by (simp only: takeWhile_dropWhile_id)
  then show ?thesis unfolding rstrip_def by (simp only: rev_append rev_rev_ident)
qed

lemma lstrip_decomp: "s = takeWhile isspace s @ lstrip s"
  by (simp add: lstrip_def)

lemma strip_decomp: "s = takeWhile isspace s @ strip s @ rev (takeWhile isspace (rev (lstrip s)))"
  using lstrip_decomp [of s] rstrip_decomp [of "lstrip s"] by (simp add: strip_def)

lemma sublist_strip: "sublist (strip s) s"
  using strip_decomp [of s] unfolding sublist_def by blast

lemma strip_hd: "strip s \<noteq> [] \<Longrightarrow> \<not> isspace (hd (strip s))"
proof -
  assume ne: "strip s \<noteq> []"
  have "lstrip s = strip s @ rev (takeWhile isspace (rev (lstrip s)))"
    using rstrip_decomp [of "lstrip s"] by (simp add: strip_def)
  then have "hd (lstrip s) = hd (strip s)" using ne by (metis hd_append2)
  moreover have "lstrip s \<noteq> []" using ne by (auto simp: strip_def rstrip_def)
  ultimately show ?thesis using lstrip_hd by metis
qed

lemma strip_last: "strip s \<noteq> [] \<Longrightarrow> \<not> isspace (last (strip s))"
  unfolding strip_def by (rule rstrip_last)

text \<open>
  Claim C8. Whatever Markdown text the converter returns, the post-processed result
  holds no three consecutive newlines and neither starts nor ends with white space.
  The collapse itself turns a maximal run of \<open>n\<close> newlines (bounded on the left by
  \<open>xs\<close>, on the right by \<open>ys\<close>) into \<open>min n 2\<close> newlines: runs of three or more
  become exactly two, shorter runs stay.
\<close>

theorem postprocess_markdown_normal:
  "\<not> sublist [NL, NL, NL] (postprocess_markdown text_md)
   \<and> (postprocess_markdown text_md = []
       \<or> (\<not> isspace (hd (postprocess_markdown text_md))
          \<and> \<not> isspace (last (postprocess_markdown text_md))))
   \<and> ((xs = [] \<or> last xs \<noteq> NL) \<and> (ys = [] \<or> hd ys \<noteq> NL) \<longrightarrow>
        collapse_newlines (xs @ replicate n NL @ ys)
          = collapse_newlines xs @ replicate (min n 2) NL @ collapse_newlines ys)"
proof -
  have "\<not> sublist [NL, NL, NL] (postprocess_markdown text_md)"
    using collapse_no_run3 [of text_md] sublist_strip [of "collapse_newlines text_md"]
    unfolding postprocess_markdown_def by (meson sublist_order.order_trans)
  moreover have "postprocess_markdown text_md = []
       \<or> (\<not> isspace (hd (postprocess_markdown text_md))
          \<and> \<not> isspace (last (postprocess_markdown text_md)))"
    unfolding postprocess_markdown_def using strip_hd strip_last by blast
  ultimately show ?thesis
    by (simp add: collapse_append collapse_run)
qed

theorem postprocess_markdown_normal_witness:
  "postprocess_markdown ([NL, NL, NL] @ '' a'' @ [NL, NL, NL, NL] @ ''b '' @ [NL])
     = ''a'' @ [NL, NL] @ ''b''
   \<and> \<not> sublist [NL, NL, NL] (''a'' @ [NL, NL] @ ''b'')
   \<and> \<not> isspace (CHR ''a'') \<and> \<not> isspace (CHR ''b'')
   \<and> collapse_newlines (''a'' @ replicate 4 NL @ ''b'') = ''a'' @ [NL, NL] @ ''b''"
proof -
  let ?t = "[NL, NL, NL] @ '' a'' @ [NL, NL, NL, NL] @ ''b '' @ [NL]"
  have e: "postprocess_markdown ?t = ''a'' @ [NL, NL] @ ''b''"
    by code_simp
  have c: "collapse_newlines ''a'' = ''a''" "collapse_newlines ''b'' = ''b''"
    by simp_all
  show ?thesis
    using postprocess_markdown_normal [of ?t "''a''" "''b''" 4] c unfolding e
    by (simp add: numeral_2_eq_2)
qed

section \<open>translate\_text: the calls made and the failures recovered\<close>

lemma strip_empty_iff: "strip s = [] \<longleftrightarrow> (\<forall>c\<in>set s. isspace c)"
proof
  assume e: "strip s = []"
  show "\<forall>c\<in>set s. isspace c"
  proof (rule ccontr)
    assume "\<not> (\<forall>c\<in>set s. isspace c)"
    then have ne: "lstrip s \<noteq> []" by (auto simp: lstrip_def dropWhile_eq_Nil_conv)
    then have "\<not> isspace (hd (lstrip s))" by (rule lstrip_hd)
    moreover have "hd (lstrip s) \<in> set (rev (lstrip s))" using ne by simp
    ultimately have "dropWhile isspace (rev (lstrip s)) \<noteq> []"
      unfolding dropWhile_eq_Nil_conv by blast
    then show False using e by (simp add: strip_def rstrip_def)
  qed
next
  assume "\<forall>c\<in>set s. isspace c"
  then have "lstrip s = []" by (simp add: lstrip_def)
  then show "strip s = []" by (simp add: strip_def rstrip_def)
qed

lemma translate_chunks_Cons:
  "translate_chunks tr (chunk # chunks) s =
     ((case fst (tr chunk s) of Inl e \<Rightarrow> chunk | Inr translated \<Rightarrow> translated)
        # fst (translate_chunks tr chunks (snd (tr chunk s))),
      snd (translate_chunks tr chunks (snd (tr chunk s))))"
  by (simp split: prod.splits sum.splits)

lemma translate_blocks_Cons:
  "translate_blocks tr (block0 # paragraphs) s =
     (if strip block0 = []
      then ([] # fst (translate_blocks tr paragraphs s), snd (translate_blocks tr paragraphs s))
      else (join [NL] (fst (translate_chunks tr (chunks_of_block (strip block0)) s))
              # fst (translate_blocks tr paragraphs
                       (snd (translate_chunks tr (chunks_of_block (strip block0)) s))),
            snd (translate_blocks tr paragraphs
                       (snd (translate_chunks tr (chunks_of_block (strip block0)) s)))))"
  by (simp add: Let_def split: prod.splits)

lemma translate_text_eq:
  "translate_text tr text s =
     (if strip text = [] then (text, s)
      else (join [NL, NL] (fst (translate_blocks tr (split [NL, NL] text) s)),
            snd (translate_blocks tr (split [NL, NL] text) s)))"
  by (simp add: translate_text_def split: prod.splits)

lemma logging_eq:
  "logging tr chunk (calls, s) = (fst (tr chunk s), (calls @ [chunk], snd (tr chunk s)))"
  by (simp add: logging_def split: prod.splits)

lemma translate_chunks_logging:
  "translate_chunks (logging tr) chunks (calls, s)
     = (fst (translate_chunks tr chunks s), (calls @ chunks, snd (translate_chunks tr chunks s)))"
  by (induction chunks arbitrary: calls s)
     (simp_all add: translate_chunks_Cons logging_eq del: translate_chunks.simps(2))

lemma translate_blocks_logging:
  "translate_blocks (logging tr) ps (calls, s)
     = (fst (translate_blocks tr ps s),
        (calls @ concat (map (\<lambda>block0. if strip block0 = [] then [] else chunks_of_block (strip block0)) ps),
         snd (translate_blocks tr ps s)))"
  by (induction ps arbitrary: calls s)
     (simp_all add: translate_blocks_Cons translate_chunks_logging del: translate_blocks.simps(2))

lemma translate_text_logging:
  "translate_text (logging tr) text (calls, s)
     = (fst (translate_text tr text s), (calls @ chunks_of_text text, snd (translate_text tr text s)))"
  by (simp add: translate_text_eq chunks_of_text_def translate_blocks_logging)

text \<open>
  Claim C6. A text that is empty or holds only white space is returned as it is, and
  the backend is not called: its state is unchanged, and a backend that records its
  calls has recorded none.
\<close>

theorem translate_text_whitespace_unchanged:
  assumes "\<forall>c\<in>set text. isspace c"
  shows "translate_text tr text s = (text, s)
         \<and> translate_text (logging tr) text ([], s) = (text, ([], s))"
  using assms by (simp add: translate_text_eq strip_empty_iff [symmetric])

theorem translate_text_whitespace_unchanged_witness:
  "isspace (CHR '' '') \<and> isspace NL \<and> isspace (CHR 0x09)
   \<and> translate_text (logging (identity_backend :: (unit, unit) backend)) ('' '' @ [NL, CHR 0x09] @ '' '') ([], ())
       = ('' '' @ [NL, CHR 0x09] @ '' '', ([], ()))"
proof -
  have h: "\<forall>c\<in>set ('' '' @ [NL, CHR 0x09] @ '' ''). isspace c"
    by (simp add: isspace_def)
  show ?thesis
    using translate_text_whitespace_unchanged [OF h, of "identity_backend :: (unit, unit) backend" "()"]
    by (simp add: isspace_def)
qed




lemma translate_chunks_identity:
  "translate_chunks identity_backend chunks s = (chunks, s)"
  by (induction chunks arbitrary: s) (simp_all add: identity_backend_def)


lemma translate_blocks_identity:
  "translate_blocks identity_backend ps s = (map rejoined_block ps, s)"
  by (induction ps arbitrary: s)
     (simp_all add: translate_blocks_Cons translate_chunks_identity rejoined_block_def
               del: translate_blocks.simps(2))

section \<open>Splitting and joining\<close>

lemma startswith_prefix: "startswith s p \<longleftrightarrow> prefix p s"
  unfolding startswith_def prefix_def
  by (metis append_eq_conv_conj append_take_drop_id)

lemma join_Cons: "ys \<noteq> [] \<Longrightarrow> join sep (x # ys) = x @ sep @ join sep ys"
  by (cases ys) simp_all

lemma join_snoc: "xs \<noteq> [] \<Longrightarrow> join sep (xs @ [y]) = join sep xs @ sep @ y"
  by (induction sep xs rule: join.induct) simp_all

lemma join_snoc_append: "join sep (xs @ [y @ z]) = join sep (xs @ [y]) @ z"
  by (induction sep xs rule: join.induct) simp_all

lemma join_conv_concat: "join sep (x # xs) = x @ concat (map (\<lambda>l. sep @ l) xs)"
  by (induction xs arbitrary: x) (simp_all add: join_Cons)

lemma join_split_char: "join [c] (split [c] s) = s"
proof (induction s)
  case Nil
  show ?case by simp
next
  case (Cons x s)
  obtain p ps where ps: "split [c] s = p # ps"
    by (cases "split [c] s") auto
  show ?case using Cons ps
    by (cases ps) (auto simp: split_char_Cons)
qed

lemma split_hd_prefix: "prefix (hd (split sep s)) s"
proof (induction sep s rule: split.induct)
  case (1 sep s)
  show ?case
  proof (cases "s = []")
    case True
    then show ?thesis by simp
  next
    case ne: False
    show ?thesis
    proof (cases "sep \<noteq> [] \<and> startswith s sep")
      case True
      then show ?thesis using ne by (subst split.simps) simp
    next
      case False
      obtain p ps where ps: "split sep (tl s) = p # ps"
        by (cases "split sep (tl s)") auto
      have "prefix p (tl s)" using "1.IH"(2) [OF ne False] ps by simp
      then have "prefix (hd s # p) s" using ne by (cases s) auto
      moreover have "split sep s = (hd s # p) # ps"
        using ne False ps by (subst split.simps) auto
      ultimately show ?thesis by simp
    qed
  qed
qed

lemma split_piece_no_sep:
  assumes "sep \<noteq> []" "p \<in> set (split sep s)"
  shows "\<not> sublist sep p"
  using assms
proof (induction sep s arbitrary: p rule: split.induct)
  case (1 sep s)
  have sep: "sep \<noteq> []" using "1.prems" by simp
  show ?case
  proof (cases "s = []")
    case True
    then show ?thesis using "1.prems" by simp
  next
    case ne: False
    show ?thesis
    proof (cases "sep \<noteq> [] \<and> startswith s sep")
      case True
      then have "split sep s = [] # split sep (drop (length sep) s)"
        using ne by (subst split.simps) simp
      then have "p = [] \<or> p \<in> set (split sep (drop (length sep) s))"
        using "1.prems" by auto
      then show ?thesis
        using "1.IH"(1) [OF ne True] sep by auto
    next
      case nsw: False
      obtain q qs where qs: "split sep (tl s) = q # qs"
        by (cases "split sep (tl s)") auto
      have eq: "split sep s = (hd s # q) # qs"
        using ne nsw qs by (subst split.simps) auto
      have ih: "\<And>p. p \<in> set (q # qs) \<Longrightarrow> \<not> sublist sep p"
        using "1.IH"(2) [OF ne nsw] qs sep by simp
      show ?thesis
      proof (cases "p = hd s # q")
        case True
        have "prefix q (tl s)" using split_hd_prefix [of sep "tl s"] qs by simp
        then have pre: "prefix (hd s # q) s" using ne by (cases s) auto
        have "\<not> prefix sep (hd s # q)"
        proof
          assume "prefix sep (hd s # q)"
          then have "prefix sep s" using pre by (rule prefix_order.order_trans)
          then show False using nsw sep by (simp add: startswith_prefix)
        qed
        then show ?thesis using ih [of q] True by (simp add: sublist_Cons_right)
      next
        case False
        then have "p \<in> set qs" using "1.prems" eq by simp
        then show ?thesis using ih by simp
      qed
    qed
  qed
qed

text \<open>Splitting on the paragraph separator undoes joining, when no piece can form a separator.\<close>

lemma split_no_sep_id: "\<not> sublist [NL, NL] b \<Longrightarrow> split [NL, NL] b = [b]"
proof (induction b)
  case Nil
  show ?case by simp
next
  case (Cons x b)
  have ns: "\<not> startswith (x # b) [NL, NL]"
    using Cons.prems by (auto simp: startswith_prefix)
  have "\<not> sublist [NL, NL] b" using Cons.prems by (simp add: sublist_Cons_right)
  then have "split [NL, NL] b = [b]" by (rule Cons.IH)
  then show ?case using ns by (subst split.simps) simp
qed

lemma split_append_sep:
  assumes "\<not> sublist [NL, NL] b" "b \<noteq> [] \<longrightarrow> last b \<noteq> NL"
  shows "split [NL, NL] (b @ NL # NL # r) = b # split [NL, NL] r"
  using assms
proof (induction b)
  case Nil
  show ?case by (subst split.simps) (simp add: startswith_def)
next
  case (Cons x b)
  have nsub: "\<not> sublist [NL, NL] b" and npre: "\<not> prefix [NL, NL] (x # b)"
    using Cons.prems(1) by (simp_all add: sublist_Cons_right)
  have lastb: "b \<noteq> [] \<longrightarrow> last b \<noteq> NL" using Cons.prems(2) by auto
  have ih: "split [NL, NL] (b @ NL # NL # r) = b # split [NL, NL] r"
    using nsub lastb by (rule Cons.IH)
  have ns: "\<not> startswith ((x # b) @ NL # NL # r) [NL, NL]"
  proof (cases b)
    case Nil
    then have "x \<noteq> NL" using Cons.prems(2) by simp
    then show ?thesis by (simp add: startswith_def)
  next
    case (Cons y ys)
    then show ?thesis using npre by (auto simp: startswith_def)
  qed
  show ?case using ns ih by (subst split.simps) simp
qed

lemma split_join:
  assumes "bs \<noteq> []" "\<forall>b\<in>set bs. \<not> sublist [NL, NL] b \<and> (b \<noteq> [] \<longrightarrow> last b \<noteq> NL)"
  shows "split [NL, NL] (join [NL, NL] bs) = bs"
  using assms
proof (induction "[NL, NL]" bs rule: join.induct)
  case 1
  then show ?case by simp
next
  case (2 x)
  then show ?case by (simp add: split_no_sep_id)
next
  case (3 x y ys)
  have "split [NL, NL] (join [NL, NL] (y # ys)) = y # ys"
    using 3 by simp
  then show ?case using 3(3) by (simp add: split_append_sep)
qed

lemma lstrip_id: "s = [] \<or> \<not> isspace (hd s) \<Longrightarrow> lstrip s = s"
  by (cases s) (auto simp: lstrip_def)

lemma rstrip_id: "s = [] \<or> \<not> isspace (last s) \<Longrightarrow> rstrip s = s"
  by (cases s rule: rev_cases) (auto simp: rstrip_def)

lemma strip_id: "s = [] \<or> (\<not> isspace (hd s) \<and> \<not> isspace (last s)) \<Longrightarrow> strip s = s"
  unfolding strip_def by (auto simp: lstrip_id rstrip_id)

lemma strip_strip [simp]: "strip (strip s) = strip s"
  using strip_hd [of s] strip_last [of s] by (intro strip_id) blast

lemma strip_NL_Cons [simp]: "strip (NL # s) = strip s"
  by (simp add: strip_def lstrip_def isspace_def)

section \<open>translate\_text: packing the lines of a paragraph\<close>

lemma pack_loop_join:
  "current \<noteq> [] \<Longrightarrow>
   join [NL] (flush_current (pack_loop lines (chunks, current, n)))
     = join [NL] (chunks @ [join [NL] current]) @ concat (map (\<lambda>l. NL # l) lines)"
proof (induction lines arbitrary: chunks current n)
  case Nil
  then show ?case by simp
next
  case (Cons line lines)
  show ?case
  proof (cases "n + length line + 1 > safety_margin")
    case True
    have "join [NL] (flush_current (pack_loop lines (chunks @ [join [NL] current], [line], length line)))
          = join [NL] ((chunks @ [join [NL] current]) @ [join [NL] [line]]) @ concat (map (\<lambda>l. NL # l) lines)"
      by (rule Cons.IH) simp
    moreover have "join [NL] ((chunks @ [join [NL] current]) @ [line])
          = join [NL] (chunks @ [join [NL] current]) @ NL # line"
      by (subst join_snoc) simp_all
    ultimately show ?thesis using True by simp
  next
    case False
    have "join [NL] (flush_current (pack_loop lines (chunks, current @ [line], n + length line + 1)))
          = join [NL] (chunks @ [join [NL] (current @ [line])]) @ concat (map (\<lambda>l. NL # l) lines)"
      by (rule Cons.IH) simp
    moreover have "join [NL] (chunks @ [join [NL] (current @ [line])])
          = join [NL] (chunks @ [join [NL] current]) @ NL # line"
      using Cons.prems join_snoc_append [of "[NL]" chunks "join [NL] current" "NL # line"]
      by (simp add: join_snoc)
    ultimately show ?thesis using False by simp
  qed
qed

lemma join_chunks_of_block:
  "join [NL] (chunks_of_block b)
     = (if safety_margin < length (hd (split [NL] b)) + 1 then NL # b else b)"
proof -
  obtain l ls where ls: "split [NL] b = l # ls"
    by (cases "split [NL] b") auto
  have b: "b = l @ concat (map (\<lambda>l. NL # l) ls)"
    using join_split_char [of NL b] ls join_conv_concat [of "[NL]" l ls] by simp
  show ?thesis
  proof (cases "safety_margin < length l + 1")
    case True
    have "join [NL] (flush_current (pack_loop ls ([[]], [l], length l)))
          = join [NL] ([[]] @ [join [NL] [l]]) @ concat (map (\<lambda>l. NL # l) ls)"
      by (rule pack_loop_join) simp
    then show ?thesis using True ls b by (simp add: chunks_of_block_def)
  next
    case False
    have "join [NL] (flush_current (pack_loop ls ([], [l], length l + 1)))
          = join [NL] ([] @ [join [NL] [l]]) @ concat (map (\<lambda>l. NL # l) ls)"
      by (rule pack_loop_join) simp
    then show ?thesis using False ls b by (simp add: chunks_of_block_def)
  qed
qed

lemma rejoined_block_cases:
  "rejoined_block p = (if safety_margin < length (hd (split [NL] (strip p))) + 1 then NL # strip p else strip p)"
proof (cases "strip p = []")
  case True
  then show ?thesis by (simp add: rejoined_block_def safety_margin_def)
next
  case False
  then show ?thesis by (simp add: rejoined_block_def join_chunks_of_block)
qed

lemma strip_rejoined_block: "strip (rejoined_block p) = strip p"
  by (simp add: rejoined_block_cases)

lemma rejoined_block_separable:
  assumes "\<not> sublist [NL, NL] p"
  shows "\<not> sublist [NL, NL] (rejoined_block p)
         \<and> (rejoined_block p \<noteq> [] \<longrightarrow> last (rejoined_block p) \<noteq> NL)"
proof -
  have ns: "\<not> sublist [NL, NL] (strip p)"
    using assms sublist_strip [of p] by (meson sublist_order.order_trans)
  have sp: "isspace NL" by (simp add: isspace_def)
  show ?thesis
  proof (cases "strip p = []")
    case True
    then show ?thesis by (simp add: rejoined_block_def)
  next
    case False
    then have h: "hd (strip p) \<noteq> NL" and l: "last (strip p) \<noteq> NL"
      using strip_hd [of p] strip_last [of p] sp by auto
    have "\<not> prefix [NL, NL] (NL # strip p)"
      using False h by (cases "strip p") auto
    then have "\<not> sublist [NL, NL] (NL # strip p)"
      using ns by (simp add: sublist_Cons_right)
    then show ?thesis using ns l False by (simp add: rejoined_block_cases)
  qed
qed

lemma split_translate_text_identity:
  assumes "strip text \<noteq> []"
  shows "split [NL, NL] (fst (translate_text identity_backend text s))
           = map rejoined_block (split [NL, NL] text)"
proof -
  have "\<forall>b\<in>set (map rejoined_block (split [NL, NL] text)).
          \<not> sublist [NL, NL] b \<and> (b \<noteq> [] \<longrightarrow> last b \<noteq> NL)"
    using split_piece_no_sep [of "[NL, NL]" _ "text"] rejoined_block_separable by auto
  then have "split [NL, NL] (join [NL, NL] (map rejoined_block (split [NL, NL] text)))
          = map rejoined_block (split [NL, NL] text)"
    by (intro split_join) simp_all
  then show ?thesis using assms
    by (simp add: translate_text_eq translate_blocks_identity)
qed

text \<open>
  Claim C3. With the identity backend, the output split on the paragraph separator has
  as many paragraphs as the input, and the paragraphs agree one by one, in order, up
  to the white space at their ends: none is lost, none is duplicated.
\<close>

theorem identity_backend_keeps_paragraphs:
  "length (split [NL, NL] (fst (translate_text (identity_backend :: ('s, 'e) backend) text s)))
     = length (split [NL, NL] text)
   \<and> map strip (split [NL, NL] (fst (translate_text (identity_backend :: ('s, 'e) backend) text s)))
     = map strip (split [NL, NL] text)"
proof (cases "strip text = []")
  case True
  then show ?thesis by (simp add: translate_text_eq)
next
  case False
  then show ?thesis
    by (simp add: split_translate_text_identity strip_rejoined_block)
qed

theorem identity_backend_keeps_paragraphs_witness:
  "fst (translate_text (identity_backend :: (unit, unit) backend)
          (''ab'' @ [NL] @ ''cd'' @ [NL, NL, NL] @ '' x '' @ [NL, NL] @ ''  '' @ [NL, NL]) ())
     = ''ab'' @ [NL] @ ''cd'' @ [NL, NL] @ ''x'' @ [NL, NL, NL, NL]
   \<and> length (split [NL, NL]
         (''ab'' @ [NL] @ ''cd'' @ [NL, NL, NL] @ '' x '' @ [NL, NL] @ ''  '' @ [NL, NL])) = 4
   \<and> map strip (split [NL, NL]
         (''ab'' @ [NL] @ ''cd'' @ [NL, NL, NL] @ '' x '' @ [NL, NL] @ ''  '' @ [NL, NL]))
     = [''ab'' @ [NL] @ ''cd'', ''x'', [], []]"
proof -
  let ?T = "''ab'' @ [NL] @ ''cd'' @ [NL, NL, NL] @ '' x '' @ [NL, NL] @ ''  '' @ [NL, NL]"
  let ?out = "''ab'' @ [NL] @ ''cd'' @ [NL, NL] @ ''x'' @ [NL, NL, NL, NL]"
  have e: "fst (translate_text (identity_backend :: (unit, unit) backend) ?T ()) = ?out"
    by code_simp
  have o: "length (split [NL, NL] ?out) = 4"
    "map strip (split [NL, NL] ?out) = [''ab'' @ [NL] @ ''cd'', ''x'', [], []]"
    by code_simp+
  have "length (split [NL, NL] ?T) = 4
        \<and> map strip (split [NL, NL] ?T) = [''ab'' @ [NL] @ ''cd'', ''x'', [], []]"
    using identity_backend_keeps_paragraphs [of "?T" "()", where ?'e = unit] o
    unfolding e by (simp only:)
  then show ?thesis using e by (simp only: simp_thms)
qed

text \<open>The size of the chunks.\<close>

lemma split_piece_set: "p \<in> set (split sep s) \<Longrightarrow> set p \<subseteq> set s"
proof (induction sep s arbitrary: p rule: split.induct)
  case (1 sep s)
  show ?case
  proof (cases "s = []")
    case True
    then show ?thesis using "1.prems" by simp
  next
    case ne: False
    show ?thesis
    proof (cases "sep \<noteq> [] \<and> startswith s sep")
      case True
      then have "split sep s = [] # split sep (drop (length sep) s)"
        using ne by (subst split.simps) simp
      then have "p = [] \<or> p \<in> set (split sep (drop (length sep) s))"
        using "1.prems" by auto
      then show ?thesis
        using "1.IH"(1) [OF ne True] set_drop_subset [of "length sep" s] by auto
    next
      case nsw: False
      obtain q qs where qs: "split sep (tl s) = q # qs"
        by (cases "split sep (tl s)") auto
      have eq: "split sep s = (hd s # q) # qs"
        using ne nsw qs by (subst split.simps) auto
      have ih: "\<And>p. p \<in> set (q # qs) \<Longrightarrow> set p \<subseteq> set (tl s)"
        using "1.IH"(2) [OF ne nsw] qs by simp
      have s: "set s = insert (hd s) (set (tl s))" using ne by (cases s) auto
      show ?thesis
      proof (cases "p = hd s # q")
        case True
        then show ?thesis using ih [of q] s by auto
      next
        case False
        then have "p \<in> set qs" using "1.prems" eq by simp
        then show ?thesis using ih [of p] s by auto
      qed
    qed
  qed
qed

lemma strip_piece_nonempty:
  assumes "p \<in> set (split sep s)" "strip p \<noteq> []"
  shows "strip s \<noteq> []"
  using assms split_piece_set [OF assms(1)] unfolding strip_empty_iff by blast

lemma length_join_snoc:
  "length (join [NL] (current @ [line])) \<le> length (join [NL] current) + length line + 1"
  by (cases "current = []") (simp_all add: join_snoc)

lemma pack_loop_bound:
  assumes "set lines \<subseteq> L"
    and "\<forall>c\<in>set chunks. length c \<le> safety_margin \<or> (c \<in> L \<and> safety_margin < length c)"
    and "length (join [NL] current) \<le> n"
    and "n \<le> safety_margin \<or> (\<exists>l\<in>L. current = [l] \<and> safety_margin < length l)"
  shows "\<forall>c\<in>set (flush_current (pack_loop lines (chunks, current, n))).
           length c \<le> safety_margin \<or> (c \<in> L \<and> safety_margin < length c)"
  using assms
proof (induction lines arbitrary: chunks current n)
  case Nil
  then show ?case by auto
next
  case (Cons line lines)
  have cur: "length (join [NL] current) \<le> safety_margin
             \<or> (join [NL] current \<in> L \<and> safety_margin < length (join [NL] current))"
    using Cons.prems(3,4) by auto
  show ?case
  proof (cases "n + length line + 1 > safety_margin")
    case True
    have "\<forall>c\<in>set (flush_current (pack_loop lines (chunks @ [join [NL] current], [line], length line))).
           length c \<le> safety_margin \<or> (c \<in> L \<and> safety_margin < length c)"
    proof (rule Cons.IH)
      show "set lines \<subseteq> L" using Cons.prems(1) by simp
      show "\<forall>c\<in>set (chunks @ [join [NL] current]).
              length c \<le> safety_margin \<or> (c \<in> L \<and> safety_margin < length c)"
        using Cons.prems(2) cur by auto
      show "length (join [NL] [line]) \<le> length line" by simp
      show "length line \<le> safety_margin \<or> (\<exists>l\<in>L. [line] = [l] \<and> safety_margin < length l)"
        using Cons.prems(1) by auto
    qed
    then show ?thesis using True by simp
  next
    case False
    have "\<forall>c\<in>set (flush_current (pack_loop lines (chunks, current @ [line], n + length line + 1))).
           length c \<le> safety_margin \<or> (c \<in> L \<and> safety_margin < length c)"
    proof (rule Cons.IH)
      show "set lines \<subseteq> L" using Cons.prems(1) by simp
      show "\<forall>c\<in>set chunks. length c \<le> safety_margin \<or> (c \<in> L \<and> safety_margin < length c)"
        using Cons.prems(2) .
      show "length (join [NL] (current @ [line])) \<le> n + length line + 1"
        using length_join_snoc [of current line] Cons.prems(3) by simp
      show "n + length line + 1 \<le> safety_margin
            \<or> (\<exists>l\<in>L. current @ [line] = [l] \<and> safety_margin < length l)"
        using False by simp
    qed
    then show ?thesis using False by simp
  qed
qed

lemma chunks_of_block_bound:
  "c \<in> set (chunks_of_block b) \<Longrightarrow>
   length c \<le> safety_margin \<or> (c \<in> set (split [NL] b) \<and> safety_margin < length c)"
  unfolding chunks_of_block_def
  using pack_loop_bound [of "split [NL] b" "set (split [NL] b)" "[]" "[]" 0]
  by simp

lemma pack_loop_extends:
  "\<exists>rest. flush_current (pack_loop lines (chunks, current, n)) = chunks @ rest"
proof (induction lines arbitrary: chunks current n)
  case Nil
  show ?case by simp
next
  case (Cons line lines)
  show ?case
  proof (cases "n + length line + 1 > safety_margin")
    case True
    obtain rest where "flush_current (pack_loop lines (chunks @ [join [NL] current], [line], length line))
        = (chunks @ [join [NL] current]) @ rest"
      using Cons.IH by blast
    then show ?thesis using True by simp
  next
    case False
    then show ?thesis using Cons.IH by simp
  qed
qed

lemma pack_loop_closes_full:
  assumes "safety_margin \<le> n"
  shows "\<exists>rest. flush_current (pack_loop lines (chunks, [l], n)) = chunks @ l # rest"
proof (cases lines)
  case Nil
  then show ?thesis by simp
next
  case (Cons line ls)
  obtain rest where "flush_current (pack_loop ls (chunks @ [join [NL] [l]], [line], length line))
        = (chunks @ [join [NL] [l]]) @ rest"
    using pack_loop_extends by blast
  then show ?thesis using Cons assms by simp
qed

lemma pack_loop_oversized:
  assumes "l \<in> set lines" "safety_margin < length l"
  shows "l \<in> set (flush_current (pack_loop lines (chunks, current, n)))"
  using assms(1)
proof (induction lines arbitrary: chunks current n)
  case Nil
  then show ?case by simp
next
  case (Cons line lines)
  show ?case
  proof (cases "l = line")
    case True
    obtain rest where
      "flush_current (pack_loop lines (chunks @ [join [NL] current], [l], length l))
         = (chunks @ [join [NL] current]) @ l # rest"
      using pack_loop_closes_full [of "length l"] assms(2) by (meson less_imp_le)
    then show ?thesis using True assms(2) by simp
  next
    case False
    then have "l \<in> set lines" using Cons.prems by simp
    then show ?thesis using Cons.IH by simp
  qed
qed

lemma chunks_of_block_oversized:
  "l \<in> set (split [NL] b) \<Longrightarrow> safety_margin < length l \<Longrightarrow> l \<in> set (chunks_of_block b)"
  unfolding chunks_of_block_def by (rule pack_loop_oversized)

lemma chunks_of_block_first_overflow:
  assumes "safety_margin < length (hd (split [NL] b)) + 1"
  shows "\<exists>rest. chunks_of_block b = [] # hd (split [NL] b) # rest"
proof -
  obtain l ls where ls: "split [NL] b = l # ls"
    by (cases "split [NL] b") auto
  have "safety_margin \<le> length l" using assms ls by simp
  then obtain rest where "flush_current (pack_loop ls ([[]], [l], length l)) = [[]] @ l # rest"
    using pack_loop_closes_full by blast
  then show ?thesis using assms ls by (simp add: chunks_of_block_def)
qed

lemma in_chunks_of_text:
  "c \<in> set (chunks_of_text text) \<longleftrightarrow>
     (strip text \<noteq> [] \<and> (\<exists>p\<in>set (split [NL, NL] text). strip p \<noteq> [] \<and> c \<in> set (chunks_of_block (strip p))))"
  by (auto simp: chunks_of_text_def split: if_splits)

text \<open>
  Claim C2. Every chunk that \<open>translate_text\<close> submits to the backend is at most
  3500 characters long (the lines and the newlines between them), or it is longer and
  is a single line of one of the stripped paragraphs. Every line longer than the margin
  is a chunk by itself.
\<close>

theorem chunks_within_margin:
  "(\<forall>c\<in>set (fst (snd (translate_text (logging tr) text ([], s)))).
      length c \<le> safety_margin
      \<or> (safety_margin < length c
         \<and> (\<exists>p\<in>set (split [NL, NL] text). c \<in> set (split [NL] (strip p)))))
   \<and> (\<forall>p\<in>set (split [NL, NL] text). \<forall>l\<in>set (split [NL] (strip p)).
        safety_margin < length l \<longrightarrow>
        l \<in> set (fst (snd (translate_text (logging tr) text ([], s)))))"
proof -
  have calls: "fst (snd (translate_text (logging tr) text ([], s))) = chunks_of_text text"
    by (simp add: translate_text_logging)
  have a: "length c \<le> safety_margin
      \<or> (safety_margin < length c
         \<and> (\<exists>p\<in>set (split [NL, NL] text). c \<in> set (split [NL] (strip p))))"
    if c_in: "c \<in> set (chunks_of_text text)" for c
  proof -
    obtain p where p: "p \<in> set (split [NL, NL] text)" "c \<in> set (chunks_of_block (strip p))"
      using c_in unfolding in_chunks_of_text by blast
    show ?thesis using chunks_of_block_bound [OF p(2)] p(1) by blast
  qed
  have b: "l \<in> set (chunks_of_text text)"
    if "p \<in> set (split [NL, NL] text)" "l \<in> set (split [NL] (strip p))" "safety_margin < length l"
    for p l
  proof -
    have "strip p \<noteq> []" using that(2,3) by (auto simp: safety_margin_def)
    moreover have "strip text \<noteq> []" using strip_piece_nonempty [OF that(1) calculation] .
    moreover have "l \<in> set (chunks_of_block (strip p))"
      using that(2,3) by (rule chunks_of_block_oversized)
    ultimately show ?thesis unfolding in_chunks_of_text using that(1) by blast
  qed
  show ?thesis unfolding calls using a b by blast
qed


lemma no_newline_no_sep: "NL \<notin> set b \<Longrightarrow> \<not> sublist [NL, NL] b"
  using set_mono_sublist [of "[NL, NL]" b] by auto

lemma plain_line_facts:
  assumes "0 < n" "\<not> isspace a"
  shows "strip (replicate n a) = replicate n a"
    and "split [NL, NL] (replicate n a) = [replicate n a]"
    and "split [NL] (replicate n a) = [replicate n a]"
proof -
  have nl: "a \<noteq> NL" using assms(2) by (auto simp: isspace_def)
  show "strip (replicate n a) = replicate n a"
    using assms by (intro strip_id) (simp add: last_replicate)
  show "split [NL, NL] (replicate n a) = [replicate n a]"
    using nl by (intro split_no_sep_id no_newline_no_sep) simp
  show "split [NL] (replicate n a) = [replicate n a]"
    using nl by (intro split_char_no_sep) simp
qed

theorem chunks_within_margin_witness:
  "fst (snd (translate_text (logging (identity_backend :: (unit, unit) backend))
               (replicate 3501 (CHR ''a'')) ([], ())))
     = [[], replicate 3501 (CHR ''a'')]
   \<and> length ([] :: string) \<le> safety_margin
   \<and> safety_margin < length (replicate 3501 (CHR ''a''))
   \<and> replicate 3501 (CHR ''a'') \<in> set (split [NL] (strip (replicate 3501 (CHR ''a''))))
   \<and> replicate 3501 (CHR ''a'')
       \<in> set (fst (snd (translate_text (logging (identity_backend :: (unit, unit) backend))
                           (replicate 3501 (CHR ''a'')) ([], ()))))"
proof -
  let ?T = "replicate 3501 (CHR ''a'')"
  have sp: "\<not> isspace (CHR ''a'')" by (simp add: isspace_def)
  note facts = plain_line_facts [of 3501 "CHR ''a''", OF _ sp, simplified]
  have ne: "?T \<noteq> []" by simp
  have c: "chunks_of_text ?T = [[], ?T]"
    using ne by (simp add: chunks_of_text_def chunks_of_block_def facts safety_margin_def)
  have calls: "fst (snd (translate_text (logging (identity_backend :: (unit, unit) backend)) ?T ([], ())))
       = [[], ?T]"
    by (simp add: translate_text_logging c)
  have big: "safety_margin < length ?T" by (simp add: safety_margin_def)
  have "?T \<in> set (fst (snd (translate_text (logging (identity_backend :: (unit, unit) backend)) ?T ([], ()))))"
    using chunks_within_margin [of "identity_backend :: (unit, unit) backend" ?T "()"] big
    by (simp add: facts)
  then show ?thesis using calls big by (simp add: facts)
qed

text \<open>
  Claim C10. In a paragraph whose first line has at least 3500 characters (its length
  plus one exceeds the margin), the chunks start with an empty chunk, followed by the
  chunk of that line alone; with the identity backend the paragraph comes out with a
  newline in front.
\<close>

theorem first_line_overflow_empty_chunk:
  assumes "i < length (split [NL, NL] text)"
    and "safety_margin < length (hd (split [NL] (strip (split [NL, NL] text ! i)))) + 1"
  shows "take 2 (chunks_of_block (strip (split [NL, NL] text ! i)))
           = [[], hd (split [NL] (strip (split [NL, NL] text ! i)))]
         \<and> split [NL, NL] (fst (translate_text identity_backend text s)) ! i
           = NL # strip (split [NL, NL] text ! i)"
proof -
  let ?p = "split [NL, NL] text ! i"
  have p: "?p \<in> set (split [NL, NL] text)" using assms(1) by simp
  have "strip ?p \<noteq> []" using assms(2) by (auto simp: safety_margin_def)
  then have t: "strip text \<noteq> []" using strip_piece_nonempty [OF p] by simp
  obtain rest where "chunks_of_block (strip ?p) = [] # hd (split [NL] (strip ?p)) # rest"
    using chunks_of_block_first_overflow [OF assms(2)] by blast
  then have "take 2 (chunks_of_block (strip ?p)) = [[], hd (split [NL] (strip ?p))]"
    by (simp add: numeral_2_eq_2)
  moreover have "split [NL, NL] (fst (translate_text identity_backend text s)) ! i = NL # strip ?p"
    using assms by (simp add: split_translate_text_identity [OF t] rejoined_block_cases)
  ultimately show ?thesis by simp
qed

theorem first_line_overflow_empty_chunk_witness:
  "0 < length (split [NL, NL] (replicate 3500 (CHR ''a'')))
   \<and> safety_margin < length (hd (split [NL] (strip (split [NL, NL] (replicate 3500 (CHR ''a'')) ! 0)))) + 1
   \<and> take 2 (chunks_of_block (replicate 3500 (CHR ''a''))) = [[], replicate 3500 (CHR ''a'')]
   \<and> split [NL, NL] (fst (translate_text (identity_backend :: (unit, unit) backend)
                              (replicate 3500 (CHR ''a'')) ())) ! 0
       = NL # replicate 3500 (CHR ''a'')"
proof -
  let ?T = "replicate 3500 (CHR ''a'')"
  have sp: "\<not> isspace (CHR ''a'')" by (simp add: isspace_def)
  note facts = plain_line_facts [of 3500 "CHR ''a''", OF _ sp, simplified]
  have h1: "0 < length (split [NL, NL] ?T)" by (simp add: facts)
  have h2: "safety_margin < length (hd (split [NL] (strip (split [NL, NL] ?T ! 0)))) + 1"
    by (simp add: facts safety_margin_def)
  show ?thesis
    using h1 h2 first_line_overflow_empty_chunk [OF h1 h2, of "()"]
    by (simp add: facts)
qed



section \<open>The link pattern\<close>

text \<open>The matcher finds a link exactly when the line holds one.\<close>

lemma match_scheme_SomeD:
  assumes "match_scheme scheme s = Some u"
  shows "\<exists>body post. s = scheme @ body @ '')'' @ post \<and> u = scheme @ body
           \<and> body \<noteq> [] \<and> CHR '')'' \<notin> set body"
proof -
  let ?rest = "drop (length scheme) s"
  let ?body = "takeWhile (\<lambda>c. c \<noteq> CHR '')'') ?rest"
  let ?tail = "dropWhile (\<lambda>c. c \<noteq> CHR '')'') ?rest"
  have sw: "startswith s scheme" and ne: "?body \<noteq> []" and tl: "drop (length ?body) ?rest \<noteq> []"
    and u: "u = scheme @ ?body"
    using assms by (auto simp: match_scheme_def Let_def split: if_splits)
  have s: "s = scheme @ ?rest"
    using sw by (metis append_take_drop_id startswith_def)
  have tne: "?tail \<noteq> []" using tl by (simp add: dropWhile_eq_drop)
  then have "hd ?tail = CHR '')''" using hd_dropWhile [of "\<lambda>c. c \<noteq> CHR '')''" ?rest] by simp
  then have "?tail = '')'' @ tl ?tail" using tne by (cases ?tail) auto
  then have "?rest = ?body @ '')'' @ tl ?tail"
    by (metis takeWhile_dropWhile_id)
  then have "s = scheme @ ?body @ '')'' @ tl ?tail" using s by metis
  moreover have "CHR '')'' \<notin> set ?body" by (auto dest: set_takeWhileD)
  ultimately show ?thesis using u ne by blast
qed

lemma match_scheme_complete:
  assumes "body \<noteq> []" "CHR '')'' \<notin> set body"
  shows "match_scheme scheme (scheme @ body @ '')'' @ post) = Some (scheme @ body)"
proof -
  have tw: "takeWhile (\<lambda>c. c \<noteq> CHR '')'') (body @ CHR '')'' # post) = body"
    using assms(2) by (induction body) auto
  show ?thesis using assms(1) by (simp add: match_scheme_def startswith_def tw)
qed

lemma match_url_SomeD:
  assumes "match_url s = Some u"
  shows "\<exists>scheme body post. s = scheme @ body @ '')'' @ post \<and> u = scheme @ body
           \<and> (scheme = ''http://'' \<or> scheme = ''https://'')
           \<and> body \<noteq> [] \<and> CHR '')'' \<notin> set body"
proof (cases "match_scheme ''https://'' s")
  case None
  then have "match_scheme ''http://'' s = Some u" using assms by (simp add: match_url_def)
  then show ?thesis using match_scheme_SomeD by blast
next
  case (Some v)
  then have "match_scheme ''https://'' s = Some u" using assms by (simp add: match_url_def)
  then show ?thesis using match_scheme_SomeD by blast
qed

lemma match_url_complete:
  assumes "scheme = ''http://'' \<or> scheme = ''https://''" "body \<noteq> []" "CHR '')'' \<notin> set body"
  shows "match_url (scheme @ body @ '')'' @ post) \<noteq> None"
proof (cases "match_scheme ''https://'' (scheme @ body @ '')'' @ post)")
  case (Some v)
  then show ?thesis by (simp add: match_url_def)
next
  case None
  then have "scheme \<noteq> ''https://''"
    using match_scheme_complete [OF assms(2,3), of "''https://''" post] by auto
  then have "scheme = ''http://''" using assms(1) by simp
  then show ?thesis
    using None match_scheme_complete [OF assms(2,3), of "''http://''" post]
    by (simp add: match_url_def)
qed

lemma startswith_decomp: "startswith s p \<Longrightarrow> s = p @ drop (length p) s"
  unfolding startswith_def by (metis append_take_drop_id)

lemma match_title_SomeD:
  "match_title acc s = Some (t, u) \<Longrightarrow>
   \<exists>t' rest. t = acc @ t' \<and> match_url rest = Some u \<and> s = t' @ '']('' @ rest"
proof (induction acc s rule: match_title.induct)
  case (1 acc s)
  note unf = match_title.simps [of acc s]
  show ?case
  proof (cases "if startswith s '']('' then match_url (drop 2 s) else None")
    case (Some v)
    then have sw: "startswith s '']('' " and mu: "match_url (drop 2 s) = Some v"
      by (auto split: if_splits)
    have tu: "t = acc" "u = v" using "1.prems" Some by (simp_all add: unf)
    have "s = '']('' @ drop 2 s"
      using startswith_decomp [OF sw] by (simp add: numeral_2_eq_2)
    then show ?thesis using mu tu by (intro exI [of _ "[]"] exI [of _ "drop 2 s"]) auto
  next
    case None
    have "\<exists>c cs. s = c # cs \<and> c \<noteq> NL \<and> match_title (acc @ [c]) cs = Some (t, u)"
      using "1.prems" [unfolded unf] None by (cases s) (auto split: if_splits)
    then obtain c cs where s: "s = c # cs" and c: "c \<noteq> NL"
      and rec: "match_title (acc @ [c]) cs = Some (t, u)"
      by blast
    obtain t' rest where t': "t = (acc @ [c]) @ t'" "match_url rest = Some u"
      "cs = t' @ '']('' @ rest"
      using "1.IH" [OF None s c rec] by blast
    show ?thesis
      using t' s by (intro exI [of _ "c # t'"] exI [of _ rest]) auto
  qed
qed

lemma match_title_complete:
  assumes "NL \<notin> set t" "match_url rest \<noteq> None"
  shows "match_title acc (t @ '']('' @ rest) \<noteq> None"
  using assms(1)
proof (induction t arbitrary: acc)
  case Nil
  then show ?case using assms(2)
    by (subst match_title.simps) (auto simp: startswith_def split: option.splits)
next
  case (Cons c t)
  have "match_title (acc @ [c]) (t @ '']('' @ rest) \<noteq> None"
    using Cons by simp
  then show ?case using Cons.prems
    by (subst match_title.simps) (auto split: option.splits)
qed

lemma re_search_SomeD:
  "re_search s = Some (t, u) \<Longrightarrow>
   \<exists>pre scheme body post. s = pre @ ''['' @ t @ '']('' @ scheme @ body @ '')'' @ post
      \<and> u = scheme @ body
      \<and> (scheme = ''http://'' \<or> scheme = ''https://'')
      \<and> body \<noteq> [] \<and> CHR '')'' \<notin> set body"
proof (induction s rule: re_search.induct)
  case (1 s)
  note unf = re_search.simps [of s]
  show ?case
  proof (cases "match_at s")
    case (Some m)
    then have m: "match_at s = Some (t, u)"
      using "1.prems" by (simp add: unf)
    have "\<exists>cs. s = CHR ''['' # cs \<and> match_title [] cs = Some (t, u)"
      using m by (cases s) (auto simp: match_at_def split: if_splits)
    then obtain cs where s: "s = CHR ''['' # cs" and mt: "match_title [] cs = Some (t, u)"
      by blast
    obtain t' rest where t': "t = [] @ t'" "match_url rest = Some u" "cs = t' @ '']('' @ rest"
      using match_title_SomeD [OF mt] by blast
    obtain scheme body post where
      u: "rest = scheme @ body @ '')'' @ post" "u = scheme @ body"
         "scheme = ''http://'' \<or> scheme = ''https://''" "body \<noteq> []" "CHR '')'' \<notin> set body"
      using match_url_SomeD [OF t'(2)] by blast
    have "s = [] @ ''['' @ t @ '']('' @ scheme @ body @ '')'' @ post"
      using s t'(1,3) u(1) by simp
    then show ?thesis using u(2-5) by blast
  next
    case None
    have "\<exists>c cs. s = c # cs \<and> re_search cs = Some (t, u)"
      using "1.prems" [unfolded unf] None by (cases s) auto
    then obtain c cs where s: "s = c # cs" and rec: "re_search cs = Some (t, u)"
      by blast
    obtain pre scheme body post where
      d: "cs = pre @ ''['' @ t @ '']('' @ scheme @ body @ '')'' @ post" "u = scheme @ body"
         "scheme = ''http://'' \<or> scheme = ''https://''" "body \<noteq> []" "CHR '')'' \<notin> set body"
      using "1.IH" [OF None s rec] by blast
    have "s = (c # pre) @ ''['' @ t @ '']('' @ scheme @ body @ '')'' @ post"
      using s d(1) by simp
    then show ?thesis using d(2-5) by blast
  qed
qed

lemma re_search_complete:
  assumes "NL \<notin> set t" "scheme = ''http://'' \<or> scheme = ''https://''"
    "body \<noteq> []" "CHR '')'' \<notin> set body"
  shows "re_search (pre @ ''['' @ t @ '']('' @ scheme @ body @ '')'' @ post) \<noteq> None"
proof (induction pre)
  case Nil
  have "match_title [] (t @ '']('' @ scheme @ body @ '')'' @ post) \<noteq> None"
    using assms by (intro match_title_complete match_url_complete)
  then show ?case
    by (subst re_search.simps) (auto simp: match_at_def split: option.splits)
next
  case (Cons c pre)
  then show ?case
    by (subst re_search.simps) (auto split: option.splits)
qed

section \<open>The links of the document\<close>

lemma lstrip_strip: "lstrip (strip s) = strip s"
  using strip_hd [of s] by (intro lstrip_id) blast

lemma hd_strip: "lstrip s \<noteq> [] \<Longrightarrow> strip s \<noteq> [] \<and> hd (strip s) = hd (lstrip s)"
proof -
  assume ne: "lstrip s \<noteq> []"
  then have "\<not> isspace (hd (lstrip s))" by (rule lstrip_hd)
  moreover have "hd (lstrip s) \<in> set s"
    using ne by (metis hd_in_set lstrip_def set_dropWhileD)
  ultimately have sne: "strip s \<noteq> []" unfolding strip_empty_iff by blast
  have "lstrip s = strip s @ rev (takeWhile isspace (rev (lstrip s)))"
    using rstrip_decomp [of "lstrip s"] by (simp add: strip_def)
  then have "hd (lstrip s) = hd (strip s)" using sne by (metis hd_append2)
  then show ?thesis using sne by simp
qed

lemma startswith_marker: "startswith (strip l) ''-'' \<longleftrightarrow> first_nonspace_is_marker l"
proof (cases "lstrip l = []")
  case True
  then have "strip l = []" by (simp add: strip_def rstrip_def)
  then have a: "\<not> startswith (strip l) ''-''" by (simp add: startswith_def)
  have dw: "dropWhile isspace l = []" using True by (simp add: lstrip_def)
  have b: "\<not> first_nonspace_is_marker l"
    unfolding first_nonspace_is_marker_def dw by simp
  show ?thesis using a b by simp
next
  case False
  then have h: "strip l \<noteq> []" "hd (strip l) = hd (lstrip l)" using hd_strip by auto
  have "startswith (strip l) ''-'' \<longleftrightarrow> hd (strip l) = CHR ''-''"
    using h(1) by (cases "strip l") (auto simp: startswith_def)
  moreover have "first_nonspace_is_marker l \<longleftrightarrow> hd (lstrip l) = CHR ''-''"
    using False by (cases "lstrip l") (auto simp: first_nonspace_is_marker_def lstrip_def)
  ultimately show ?thesis using h(2) by simp
qed

lemma dropWhile_keeps:
  assumes "m \<noteq> []" "\<not> P (hd m)"
  shows "\<exists>pre'. dropWhile P (pre @ m @ post) = pre' @ m @ post"
proof (induction pre)
  case Nil
  have "dropWhile P (m @ post) = m @ post" using assms by (cases m) auto
  then show ?case by (intro exI [of _ "[]"]) simp
next
  case (Cons x pre)
  show ?case
  proof (cases "P x")
    case True
    then show ?thesis using Cons by simp
  next
    case False
    then show ?thesis by (intro exI [of _ "x # pre"]) simp
  qed
qed

lemma strip_keeps:
  assumes "m \<noteq> []" "\<not> isspace (hd m)" "\<not> isspace (last m)"
  shows "\<exists>pre' post'. strip (pre @ m @ post) = pre' @ m @ post'"
proof -
  obtain pre' where l: "lstrip (pre @ m @ post) = pre' @ m @ post"
    using dropWhile_keeps [of m isspace pre post] assms(1,2) unfolding lstrip_def by blast
  have "rev m \<noteq> []" "\<not> isspace (hd (rev m))"
    using assms(1,3) by (simp_all add: hd_rev)
  then obtain post' where "dropWhile isspace (rev post @ rev m @ rev pre') = post' @ rev m @ rev pre'"
    using dropWhile_keeps [of "rev m" isspace "rev post" "rev pre'"] by blast
  then have "rstrip (pre' @ m @ post) = pre' @ m @ rev post'"
    by (simp add: rstrip_def)
  then show ?thesis using l by (auto simp: strip_def)
qed

lemma readlines_newline: "l \<in> set (readlines d) \<Longrightarrow> NL \<notin> set (butlast l)"
proof (induction d arbitrary: l)
  case Nil
  then show ?case by simp
next
  case (Cons c d)
  show ?case
  proof (cases "c = NL")
    case True
    then show ?thesis using Cons by auto
  next
    case False
    show ?thesis
    proof (cases "readlines d")
      case Nil
      then show ?thesis using Cons.prems False by simp
    next
      case (Cons l0 ls)
      then have "l = c # l0 \<or> l \<in> set ls" using Cons.prems False by simp
      then show ?thesis
      proof
        assume "l = c # l0"
        moreover have "NL \<notin> set (butlast l0)" using Cons.IH Cons by simp
        ultimately show ?thesis using False by simp
      next
        assume "l \<in> set ls"
        then show ?thesis using Cons.IH Cons by simp
      qed
    qed
  qed
qed

lemma contains_link_strip:
  assumes "NL \<notin> set (butlast l)"
  shows "re_search (strip l) \<noteq> None \<longleftrightarrow> contains_link l"
proof
  assume "re_search (strip l) \<noteq> None"
  then obtain t u where "re_search (strip l) = Some (t, u)" by auto
  then obtain pre scheme body post where
    d: "strip l = pre @ ''['' @ t @ '']('' @ scheme @ body @ '')'' @ post"
       "scheme = ''http://'' \<or> scheme = ''https://''" "body \<noteq> []" "CHR '')'' \<notin> set body"
    using re_search_SomeD by blast
  have "l = (takeWhile isspace l @ pre) @ ''['' @ t @ '']('' @ scheme @ body @ '')''
              @ (post @ rev (takeWhile isspace (rev (lstrip l))))"
    using strip_decomp [of l] d(1) by simp
  then show "contains_link l" unfolding contains_link_def using d(2-4) by blast
next
  assume "contains_link l"
  then obtain pre t scheme body post where
    d: "l = pre @ ''['' @ t @ '']('' @ scheme @ body @ '')'' @ post"
       "scheme = ''http://'' \<or> scheme = ''https://''" "body \<noteq> []" "CHR '')'' \<notin> set body"
    unfolding contains_link_def by blast
  let ?m = "''['' @ t @ '']('' @ scheme @ body @ '')''"
  have "l = (pre @ ''['' @ t) @ ('']('' @ scheme @ body @ '')'' @ post)" using d(1) by simp
  then have "butlast l = (pre @ ''['' @ t) @ butlast ('']('' @ scheme @ body @ '')'' @ post)"
    by (metis append_is_Nil_conv butlast_append list.distinct(1) append_Cons)
  then have nl: "NL \<notin> set t" using assms by auto
  have "?m \<noteq> []" "\<not> isspace (hd ?m)" "\<not> isspace (last ?m)"
    by (simp_all add: isspace_def)
  then obtain pre' post' where "strip (pre @ ?m @ post) = pre' @ ?m @ post'"
    using strip_keeps by blast
  then have "strip l = pre' @ ''['' @ t @ '']('' @ scheme @ body @ '')'' @ post'"
    using d(1) by simp
  then show "re_search (strip l) \<noteq> None"
    using re_search_complete [OF nl d(2-4)] by simp
qed

lemma read_links_loop_eq:
  "read_links_loop ls links =
     links @ map (\<lambda>l. \<lparr>title = fst (the (re_search (strip l))),
                        url = snd (the (re_search (strip l))), parent = None\<rparr>)
                 (filter (\<lambda>l. startswith (strip l) ''-'' \<and> re_search (strip l) \<noteq> None) ls)"
proof (induction ls arbitrary: links)
  case Nil
  show ?case by simp
next
  case (Cons l ls)
  show ?case
    by (cases "re_search (strip l)") (auto simp: Let_def Cons.IH lstrip_strip)
qed

lemma read_links_eq:
  "read_links_from_docs_readme doc =
     map (\<lambda>l. \<lparr>title = fst (the (re_search (strip l))),
                url = snd (the (re_search (strip l))), parent = None\<rparr>)
         (filter valid_link_line (readlines (universal_newlines doc)))"
proof -
  have "filter (\<lambda>l. startswith (strip l) ''-'' \<and> re_search (strip l) \<noteq> None)
               (readlines (universal_newlines doc))
        = filter valid_link_line (readlines (universal_newlines doc))"
  proof (rule filter_cong)
    fix l assume "l \<in> set (readlines (universal_newlines doc))"
    then have "re_search (strip l) \<noteq> None \<longleftrightarrow> contains_link l"
      by (intro contains_link_strip readlines_newline)
    then show "(startswith (strip l) ''-'' \<and> re_search (strip l) \<noteq> None) = valid_link_line l"
      by (simp only: valid_link_line_def startswith_marker)
  qed simp
  then show ?thesis
    by (simp add: read_links_from_docs_readme_def read_links_loop_eq)
qed

text \<open>
  Claim C7. The parser returns one item per valid link line of the document and none
  for the other lines: as many items as valid lines, and the title and URL of the
  \<open>k\<close>-th item are those matched in the \<open>k\<close>-th valid line.
\<close>

theorem read_links_one_per_valid_line:
  "length (read_links_from_docs_readme doc)
     = length (filter valid_link_line (readlines (universal_newlines doc)))
   \<and> map (\<lambda>item. Some (title item, url item)) (read_links_from_docs_readme doc)
     = map (\<lambda>line. re_search (strip line))
           (filter valid_link_line (readlines (universal_newlines doc)))"
proof -
  have "re_search (strip l) \<noteq> None"
    if "l \<in> set (filter valid_link_line (readlines (universal_newlines doc)))" for l
    using that contains_link_strip [OF readlines_newline, of l "universal_newlines doc"]
    by (simp add: valid_link_line_def)
  then show ?thesis
    by (auto simp: read_links_eq)
qed

theorem read_links_one_per_valid_line_witness:
  "length (filter valid_link_line
      (readlines (universal_newlines
         (''# Links'' @ [NL] @ ''- [A](http://a)'' @ [CR, NL] @ ''- plain item'' @ [NL]
          @ ''  - [B](https://b/c)'' @ [NL] @ ''[C](https://c)'')))) = 2
   \<and> map (\<lambda>line. re_search (strip line))
       (filter valid_link_line
          (readlines (universal_newlines
             (''# Links'' @ [NL] @ ''- [A](http://a)'' @ [CR, NL] @ ''- plain item'' @ [NL]
              @ ''  - [B](https://b/c)'' @ [NL] @ ''[C](https://c)''))))
     = [Some (''A'', ''http://a''), Some (''B'', ''https://b/c'')]"
proof -
  let ?doc = "''# Links'' @ [NL] @ ''- [A](http://a)'' @ [CR, NL] @ ''- plain item'' @ [NL]
          @ ''  - [B](https://b/c)'' @ [NL] @ ''[C](https://c)''"
  have e: "read_links_from_docs_readme ?doc
      = [\<lparr>title = ''A'', url = ''http://a'', parent = None\<rparr>,
         \<lparr>title = ''B'', url = ''https://b/c'', parent = None\<rparr>]"
    by code_simp
  show ?thesis
    using read_links_one_per_valid_line [of ?doc] unfolding e by simp
qed

text \<open>
  Claim C1, evaluated on a document whose second link line is indented by two spaces:
  the second item has no parent, where the claim gives it the title of the first. The
  line is stripped before its indentation is measured, so the indentation is always
  zero and no item of any document ever has a parent.
\<close>

theorem indented_link_parent_None:
  "read_links_from_docs_readme (''- [A](http://a)'' @ [NL] @ ''  - [B](http://b)'' @ [NL])
     = [\<lparr>title = ''A'', url = ''http://a'', parent = None\<rparr>,
        \<lparr>title = ''B'', url = ''http://b'', parent = None\<rparr>]
   \<and> map parent (read_links_from_docs_readme doc)
     = replicate (length (read_links_from_docs_readme doc)) None"
proof -
  have "read_links_from_docs_readme (''- [A](http://a)'' @ [NL] @ ''  - [B](http://b)'' @ [NL])
     = [\<lparr>title = ''A'', url = ''http://a'', parent = None\<rparr>,
        \<lparr>title = ''B'', url = ''http://b'', parent = None\<rparr>]"
    by code_simp
  moreover have "map parent (read_links_from_docs_readme doc)
     = replicate (length (read_links_from_docs_readme doc)) None"
    by (simp add: read_links_eq map_replicate_const comp_def)
  ultimately show ?thesis by simp
qed

section \<open>The title of a page\<close>

lemma find_tag_find_all:
  "find_tag name soup = (case find_all name soup of [] \<Rightarrow> None | t # _ \<Rightarrow> Some t)"
  by (induction name soup rule: find_tag.induct) (auto split: list.splits option.splits)

lemma get_title_from_html_eq:
  "get_title_from_html soup =
     (case find_all ''h1'' soup of
        h1 # _ \<Rightarrow>
          if get_text_strip h1 \<noteq> [] then get_text_strip h1
          else (case find_all ''title'' soup of [] \<Rightarrow> [] | t # _ \<Rightarrow> get_text_strip t)
      | [] \<Rightarrow> (case find_all ''title'' soup of [] \<Rightarrow> [] | t # _ \<Rightarrow> get_text_strip t))"
  by (simp add: get_title_from_html_def find_tag_find_all Let_def split: list.splits)

text \<open>
  Claim C4 as stated fails: when the first \<open>h1\<close> has no text and a later one has,
  the function returns the page title, not the text of the later \<open>h1\<close>.
\<close>

theorem get_title_first_nonempty_h1_counterexample:
  "get_title_from_html [Tag ''h1'' [], Tag ''h1'' [Text ''Real''], Tag ''title'' [Text ''Page'']]
     = ''Page''
   \<and> spec_title [Tag ''h1'' [], Tag ''h1'' [Text ''Real''], Tag ''title'' [Text ''Page'']]
     = ''Real''
   \<and> get_title_from_html [Tag ''h1'' [], Tag ''h1'' [Text ''Real''], Tag ''title'' [Text ''Page'']]
     \<noteq> spec_title [Tag ''h1'' [], Tag ''h1'' [Text ''Real''], Tag ''title'' [Text ''Page'']]"
  by code_simp

text \<open>
  Claim C4, amended. The function returns the text of the first \<open>h1\<close> of the
  document when that text is not empty; otherwise the text of the first \<open>title\<close>;
  and the empty string when there is no \<open>title\<close>. It agrees with the claim as stated
  on every document in which no \<open>h1\<close> after the first has text.
\<close>

theorem get_title_first_h1:
  "get_title_from_html soup =
     (case find_all ''h1'' soup of
        h1 # _ \<Rightarrow>
          if get_text_strip h1 \<noteq> [] then get_text_strip h1
          else (case find_all ''title'' soup of [] \<Rightarrow> [] | t # _ \<Rightarrow> get_text_strip t)
      | [] \<Rightarrow> (case find_all ''title'' soup of [] \<Rightarrow> [] | t # _ \<Rightarrow> get_text_strip t))
   \<and> ((\<forall>h\<in>set (tl (find_all ''h1'' soup)). get_text_strip h = [])
        \<longrightarrow> get_title_from_html soup = spec_title soup)"
proof -
  have "get_title_from_html soup = spec_title soup"
    if "\<forall>h\<in>set (tl (find_all ''h1'' soup)). get_text_strip h = []"
  proof (cases "find_all ''h1'' soup")
    case Nil
    then show ?thesis
      by (simp add: get_title_from_html_eq spec_title_def find_tag_find_all split: list.splits)
  next
    case (Cons h hs)
    then have "filter (\<lambda>t. t \<noteq> []) (map get_text_strip hs) = []"
      using that by (auto simp: filter_empty_conv)
    then show ?thesis using Cons
      by (simp add: get_title_from_html_eq spec_title_def find_tag_find_all split: list.splits)
  qed
  then show ?thesis using get_title_from_html_eq by blast
qed

theorem get_title_first_h1_witness:
  "get_text_strip (Tag ''h1'' []) = []
   \<and> get_title_from_html
       [Tag ''div'' [Tag ''h1'' [Text '' Hello '']], Tag ''h1'' [], Tag ''title'' [Text ''Page'']]
     = ''Hello''
   \<and> spec_title
       [Tag ''div'' [Tag ''h1'' [Text '' Hello '']], Tag ''h1'' [], Tag ''title'' [Text ''Page'']]
     = ''Hello''"
proof -
  let ?soup = "[Tag ''div'' [Tag ''h1'' [Text '' Hello '']], Tag ''h1'' [], Tag ''title'' [Text ''Page'']]"
  have h: "\<forall>h\<in>set (tl (find_all ''h1'' ?soup)). get_text_strip h = []"
    by code_simp
  have e: "get_title_from_html ?soup = ''Hello''" "get_text_strip (Tag ''h1'' []) = []"
    by code_simp+
  have "get_title_from_html ?soup = spec_title ?soup"
    using get_title_first_h1 [of ?soup] h by blast
  then have "spec_title ?soup = ''Hello''" using e(1) by (simp only:)
  then show ?thesis using e by (simp only: simp_thms)
qed

end
